theory Spec2Isabelle
  imports Complex_Main "HOL-Library.Char_ord"
begin

section \<open>Python and numpy values\<close>

text \<open>
  The notebooks are Python on top of numpy. The exceptions the modelled code can raise are
  Python's \<^verbatim>\<open>KeyError\<close> (a dictionary lookup with a missing key),
  \<^verbatim>\<open>IndexError\<close> (a numpy index outside its axis) and \<^verbatim>\<open>ValueError\<close>
  (numpy refusing an argument). A function that can raise returns \<open>error + 'a\<close>.
\<close>

datatype error = KeyError | IndexError | ValueError

text \<open>
  A float64 is modelled as a real number or one of the three special values of IEEE 754.
  The special values are kept because numpy does not raise on \<^verbatim>\<open>log(0)\<close> or on a
  division by zero: it warns and goes on with \<^verbatim>\<open>-inf\<close>, \<^verbatim>\<open>inf\<close> or
  \<^verbatim>\<open>nan\<close>. The range of float64 is modelled: the result of an operation that
  rounds to infinity (magnitude at least \<open>2^1024 - 2^970\<close>) is \<^verbatim>\<open>inf\<close> or
  \<^verbatim>\<open>-inf\<close>, and a result that rounds to zero (magnitude at most \<open>2^-1075\<close>, half
  the smallest subnormal) is 0. Between the two thresholds a result is kept exact: the
  rounding of the 53-bit significand and the sign of zero are not modelled (a zero divisor
  is read as \<open>+0.0\<close>).
\<close>

datatype npfloat = Finite real | PInf | NInf | NaN

definition overflow_threshold :: real where
  "overflow_threshold = 2 ^ 1024 - 2 ^ 970"

definition underflow_threshold :: real where
  "underflow_threshold = 1 / 2 ^ 1075"

definition float64_range :: "real \<Rightarrow> npfloat" where
  "float64_range r =
     (if overflow_threshold \<le> r then PInf
      else if r \<le> - overflow_threshold then NInf
      else if \<bar>r\<bar> \<le> underflow_threshold then Finite 0
      else Finite r)"

text \<open>The logarithm of a positive float64 is always within the range.\<close>

definition np_log :: "real \<Rightarrow> npfloat" where
  "np_log p = (if 0 < p then Finite (ln p) else if p = 0 then NInf else NaN)"

fun np_exp :: "npfloat \<Rightarrow> npfloat" where
  "np_exp (Finite x) = float64_range (exp x)"
| "np_exp PInf = PInf"
| "np_exp NInf = Finite 0"
| "np_exp NaN = NaN"

fun np_add :: "npfloat \<Rightarrow> npfloat \<Rightarrow> npfloat" where
  "np_add NaN _ = NaN"
| "np_add _ NaN = NaN"
| "np_add (Finite a) (Finite b) = float64_range (a + b)"
| "np_add PInf NInf = NaN"
| "np_add NInf PInf = NaN"
| "np_add PInf _ = PInf"
| "np_add _ PInf = PInf"
| "np_add NInf _ = NInf"
| "np_add _ NInf = NInf"

fun np_divide :: "npfloat \<Rightarrow> npfloat \<Rightarrow> npfloat" where
  "np_divide NaN _ = NaN"
| "np_divide _ NaN = NaN"
| "np_divide (Finite a) (Finite b) =
     (if b \<noteq> 0 then float64_range (a / b)
      else if 0 < a then PInf else if a < 0 then NInf else NaN)"
| "np_divide (Finite a) _ = Finite 0"
| "np_divide PInf (Finite b) = (if 0 \<le> b then PInf else NInf)"
| "np_divide NInf (Finite b) = (if 0 \<le> b then NInf else PInf)"
| "np_divide _ _ = NaN"

text \<open>
  \<^verbatim>\<open>np.sum\<close>, as a sum from the left. The sums of this program have non-negative
  terms, for which the order of the additions changes neither an overflow nor the exact
  result.
\<close>

definition np_sum :: "npfloat list \<Rightarrow> npfloat" where
  "np_sum xs = fold (\<lambda>x acc. np_add acc x) xs (Finite 0)"

text \<open>
  Integer indexing of one axis of length \<open>n\<close>: a negative index counts from the end, and
  an index outside \<open>[-n, n)\<close> raises \<^verbatim>\<open>IndexError\<close>.
\<close>

definition np_index :: "nat \<Rightarrow> int \<Rightarrow> error + nat" where
  "np_index n i =
     (if 0 \<le> i \<and> i < int n then Inr (nat i)
      else if - int n \<le> i \<and> i < 0 then Inr (nat (i + int n))
      else Inl IndexError)"

text \<open>
  \<^verbatim>\<open>np.argmax\<close> of a flattened array: the first position of the largest entry;
  an empty array raises \<^verbatim>\<open>ValueError\<close>.
\<close>

fun first_index :: "('a \<Rightarrow> bool) \<Rightarrow> 'a list \<Rightarrow> nat" where
  "first_index P [] = 0"
| "first_index P (x # xs) = (if P x then 0 else Suc (first_index P xs))"

definition np_argmax :: "nat list \<Rightarrow> error + nat" where
  "np_argmax xs =
     (if xs = [] then Inl ValueError
      else Inr (first_index (\<lambda>x. x = Max (set xs)) xs))"

section \<open>Character-level language model: vocabulary\<close>

text \<open>
  \<^verbatim>\<open>
  chars = sorted(list(set(text)))
  char_indices = dict((c, i) for i, c in enumerate(chars))
  indices_char = dict((i, c) for i, c in enumerate(chars))
  \<close>
  \<^verbatim>\<open>dict\<close> of a sequence of pairs stores them in order, a later pair replacing an
  earlier one with the same key.
\<close>

definition dict_of :: "('k \<times> 'v) list \<Rightarrow> ('k \<rightharpoonup> 'v)" where
  "dict_of kvs = fold (\<lambda>(k, v) m. m(k \<mapsto> v)) kvs Map.empty"

definition sorted_chars :: "'a::linorder list \<Rightarrow> 'a list" where
  "sorted_chars text = sorted_list_of_set (set text)"

definition build_char_indices :: "'a list \<Rightarrow> ('a \<rightharpoonup> nat)" where
  "build_char_indices chars = dict_of (map (\<lambda>(i, c). (c, i)) (enumerate 0 chars))"

definition build_indices_char :: "'a list \<Rightarrow> (nat \<rightharpoonup> 'a)" where
  "build_indices_char chars = dict_of (map (\<lambda>(i, c). (i, c)) (enumerate 0 chars))"

text \<open>
  The functions of the notebook read four globals: the window size \<^verbatim>\<open>max_length\<close>,
  the vocabulary size \<^verbatim>\<open>voc_size = len(chars)\<close> and the two dictionaries.
  \<open>notebook_env\<close> builds them from a corpus as the notebook's cells do. (A later cell
  rebinds \<^verbatim>\<open>chars\<close> to the same symbols in order of frequency before
  \<^verbatim>\<open>voc_size\<close> is computed; the length is the same.)
\<close>

record 'a env =
  max_length :: nat
  voc_size :: nat
  char_indices :: "'a \<rightharpoonup> nat"
  indices_char :: "nat \<rightharpoonup> 'a"

definition notebook_env :: "'a::linorder list \<Rightarrow> nat \<Rightarrow> 'a env" where
  "notebook_env text W =
     (let chars = sorted_chars text
      in \<lparr>max_length = W, voc_size = length chars,
          char_indices = build_char_indices chars,
          indices_char = build_indices_char chars\<rparr>)"

section \<open>Character-level language model: sampling\<close>

text \<open>
  \<^verbatim>\<open>
  def sample_one(preds, temperature=1.0):
      preds = np.asarray(preds).astype('float64')
      preds = np.log(preds) / temperature
      exp_preds = np.exp(preds)
      preds = exp_preds / np.sum(exp_preds)
      probs = np.random.multinomial(1, preds, size=1)
      return np.argmax(probs)
  \<close>
  \<^verbatim>\<open>np.random.multinomial\<close> is numpy's, and reads and advances the process-wide
  random state. It is a parameter of the model: a function from the random state and the
  weights to the row of counts it returns and the new random state, or to the exception
  it raises.
\<close>

type_synonym 'r multinomial = "'r \<Rightarrow> npfloat list \<Rightarrow> error + (nat list \<times> 'r)"

definition sample_one_pvals :: "real list \<Rightarrow> real \<Rightarrow> npfloat list" where
  "sample_one_pvals preds temperature =
     (let preds1 = map (\<lambda>p. np_divide (np_log p) (Finite temperature)) preds;
          exp_preds = map np_exp preds1
      in map (\<lambda>e. np_divide e (np_sum exp_preds)) exp_preds)"

definition sample_one :: "'r multinomial \<Rightarrow> 'r \<Rightarrow> real list \<Rightarrow> real \<Rightarrow> error + (nat \<times> 'r)" where
  "sample_one multinomial rng preds temperature =
     (case multinomial rng (sample_one_pvals preds temperature) of
        Inl e \<Rightarrow> Inl e
      | Inr (probs, rng') \<Rightarrow>
          (case np_argmax probs of Inl e \<Rightarrow> Inl e | Inr k \<Rightarrow> Inr (k, rng')))"

text \<open>
  numpy's multinomial checks its weights before it draws: it raises
  \<^verbatim>\<open>ValueError\<close> when a weight is below 0, above 1 or \<^verbatim>\<open>nan\<close>, and when the
  sum of all weights but the last exceeds \<open>1 + 1e-12\<close>. \<open>np_multinomial draw\<close> is a
  multinomial that makes this check and then draws with \<open>draw\<close>.
\<close>

definition valid_pval :: "npfloat \<Rightarrow> bool" where
  "valid_pval w = (case w of Finite r \<Rightarrow> 0 \<le> r \<and> r \<le> 1 | _ \<Rightarrow> False)"

definition finite_value :: "npfloat \<Rightarrow> real" where
  "finite_value w = (case w of Finite r \<Rightarrow> r | _ \<Rightarrow> 0)"

definition np_multinomial :: "'r multinomial \<Rightarrow> 'r multinomial" where
  "np_multinomial draw rng pvals =
     (if \<not> list_all valid_pval pvals then Inl ValueError
      else if 1 + 1 / 10 ^ 12 < sum_list (map finite_value (butlast pvals)) then Inl ValueError
      else draw rng pvals)"

text \<open>
  The values that \<^verbatim>\<open>sample_one\<close> computes from the positive entries are within
  float64's range when they are: the quotients \<open>ln p / T\<close>, their exponentials, the sum
  of the exponentials and the normalised weights.
\<close>

definition in_range :: "real \<Rightarrow> bool" where
  "in_range r \<longleftrightarrow> r = 0 \<or> (underflow_threshold < \<bar>r\<bar> \<and> \<bar>r\<bar> < overflow_threshold)"

definition within_float64 :: "real list \<Rightarrow> real \<Rightarrow> bool" where
  "within_float64 preds T \<longleftrightarrow>
     (\<Sum>q\<leftarrow>preds. q powr (1 / T)) < overflow_threshold
     \<and> list_all (\<lambda>p. 0 < p \<longrightarrow>
           in_range (ln p / T) \<and> in_range (p powr (1 / T))
           \<and> in_range (p powr (1 / T) / (\<Sum>q\<leftarrow>preds. q powr (1 / T)))) preds"

section \<open>Character-level language model: generation\<close>

text \<open>
  The assignment \<^verbatim>\<open>x[0, r, c] = 1.\<close> on the tensor of shape
  \<^verbatim>\<open>(1, max_length, voc_size)\<close>; \<open>x\<close> is the matrix \<^verbatim>\<open>x[0]\<close>.
\<close>

definition set_item :: "real list list \<Rightarrow> int \<Rightarrow> int \<Rightarrow> error + real list list" where
  "set_item x r c =
     (case np_index (length x) r of
        Inl e \<Rightarrow> Inl e
      | Inr r' \<Rightarrow>
          (case np_index (length (x ! r')) c of
             Inl e \<Rightarrow> Inl e
           | Inr c' \<Rightarrow> Inr (x[r' := (x ! r')[c' := 1] ])))"

text \<open>
  \<^verbatim>\<open>
  x = np.zeros((1, max_length, voc_size), dtype="float32")
  shift = max_length - len(prefix)
  for t, char in enumerate(prefix):
      x[0, t + shift, char_indices[char] ] = 1.
  \<close>
\<close>

fun vectorize_loop ::
  "'a env \<Rightarrow> int \<Rightarrow> nat \<Rightarrow> 'a list \<Rightarrow> real list list \<Rightarrow> error + real list list" where
  "vectorize_loop env shift t [] x = Inr x"
| "vectorize_loop env shift t (char # rest) x =
     (case char_indices env char of
        None \<Rightarrow> Inl KeyError
      | Some c \<Rightarrow>
          (case set_item x (int t + shift) (int c) of
             Inl e \<Rightarrow> Inl e
           | Inr x' \<Rightarrow> vectorize_loop env shift (Suc t) rest x'))"

definition vectorize :: "'a env \<Rightarrow> 'a list \<Rightarrow> error + real list list" where
  "vectorize env prefix =
     (let x = replicate (max_length env) (replicate (voc_size env) 0);
          shift = int (max_length env) - int (length prefix)
      in vectorize_loop env shift 0 prefix x)"

text \<open>
  \<^verbatim>\<open>
  def generate_text(model, seed_string, length=300, temperature=1.0):
      generated = seed_string
      prefix = seed_string
      for i in range(length):
          (vectorize prefix into x)
          preds = model(x)[0]
          next_index = sample_one(preds, temperature)
          next_char = indices_char[next_index]
          generated += next_char
          prefix = prefix[1:] + next_char
      return generated
  \<close>
  The model is a callable of the deep-learning framework; here it is a function from the
  matrix \<^verbatim>\<open>x[0]\<close> to the vector \<^verbatim>\<open>model(x)[0]\<close>. The state of the loop is
  \<^verbatim>\<open>generated\<close>, \<^verbatim>\<open>prefix\<close> and the random state.
\<close>

type_synonym model = "real list list \<Rightarrow> real list"

fun generate_loop ::
  "'a env \<Rightarrow> model \<Rightarrow> 'r multinomial \<Rightarrow> real \<Rightarrow> nat \<Rightarrow> 'a list \<times> 'a list \<times> 'r
     \<Rightarrow> error + ('a list \<times> 'a list \<times> 'r)" where
  "generate_loop env model multinomial temperature 0 st = Inr st"
| "generate_loop env model multinomial temperature (Suc n) (generated, prefix, rng) =
     (case vectorize env prefix of
        Inl e \<Rightarrow> Inl e
      | Inr x \<Rightarrow>
          (case sample_one multinomial rng (model x) temperature of
             Inl e \<Rightarrow> Inl e
           | Inr (next_index, rng') \<Rightarrow>
               (case indices_char env next_index of
                  None \<Rightarrow> Inl KeyError
                | Some next_char \<Rightarrow>
                    generate_loop env model multinomial temperature n
                      (generated @ [next_char], drop 1 prefix @ [next_char], rng'))))"

definition generate_text ::
  "'a env \<Rightarrow> model \<Rightarrow> 'r multinomial \<Rightarrow> 'r \<Rightarrow> 'a list \<Rightarrow> nat \<Rightarrow> real
     \<Rightarrow> error + ('a list \<times> 'r)" where
  "generate_text env model multinomial rng seed_string length' temperature =
     (case generate_loop env model multinomial temperature length'
             (seed_string, seed_string, rng) of
        Inl e \<Rightarrow> Inl e
      | Inr (generated, prefix, rng') \<Rightarrow> Inr (generated, rng'))"

text \<open>
  A random source for tests, whose every draw selects category \<open>k\<close>: the row of counts
  has its single 1 at position \<open>k\<close>.
\<close>

definition fixed_draw :: "nat \<Rightarrow> 'r multinomial" where
  "fixed_draw k rng pvals = Inr ((replicate (length pvals) 0)[k := 1], rng)"

section \<open>Embeddings: one-hot encoding and matrix product\<close>

text \<open>
  \<^verbatim>\<open>
  def onehot_encode(dim, label):
      return np.eye(dim)[label]

  onehot_i = onehot_encode(vocab_size, i)
  embedding_vector = np.dot(onehot_i, embedding_matrix)
  \<close>
  and the direct access \<^verbatim>\<open>embedding_matrix[i]\<close>. A matrix is the list of its rows.
  \<^verbatim>\<open>np.dot\<close> of a vector and a matrix raises \<^verbatim>\<open>ValueError\<close> when the length of
  the vector is not the number of rows.
\<close>

definition np_eye :: "nat \<Rightarrow> real list list" where
  "np_eye n = map (\<lambda>i. map (\<lambda>j. if i = j then 1 else 0) [0..<n]) [0..<n]"

definition get_row :: "real list list \<Rightarrow> int \<Rightarrow> error + real list" where
  "get_row M i = (case np_index (length M) i of Inl e \<Rightarrow> Inl e | Inr r \<Rightarrow> Inr (M ! r))"

definition onehot_encode :: "nat \<Rightarrow> int \<Rightarrow> error + real list" where
  "onehot_encode dim' label = get_row (np_eye dim') label"

definition ncols :: "real list list \<Rightarrow> nat" where
  "ncols M = (case M of [] \<Rightarrow> 0 | row # _ \<Rightarrow> length row)"

definition np_dot :: "real list \<Rightarrow> real list list \<Rightarrow> error + real list" where
  "np_dot v M =
     (if length v \<noteq> length M then Inl ValueError
      else Inr (map (\<lambda>j. \<Sum>i\<leftarrow>[0..<length v]. v ! i * M ! i ! j) [0..<ncols M]))"

definition embedding_vector :: "nat \<Rightarrow> int \<Rightarrow> real list list \<Rightarrow> error + real list" where
  "embedding_vector dim' label M =
     (case onehot_encode dim' label of Inl e \<Rightarrow> Inl e | Inr onehot_i \<Rightarrow> np_dot onehot_i M)"


text \<open>The shape \<^verbatim>\<open>(max_length, voc_size)\<close> of the matrix \<^verbatim>\<open>x[0]\<close>.\<close>

definition well_shaped :: "'a env \<Rightarrow> real list list \<Rightarrow> bool" where
  "well_shaped env x \<longleftrightarrow>
     length x = max_length env \<and> (\<forall>row\<in>set x. length row = voc_size env)"

section \<open>The vocabulary is a bijection\<close>

lemma sorted_chars_code: "sorted_chars text = sort (remdups text)"
  by (simp add: sorted_chars_def sorted_list_of_set_sort_remdups)

lemma distinct_sorted_chars: "distinct (sorted_chars text)"
  by (simp add: sorted_chars_def)

lemma set_sorted_chars: "set (sorted_chars text) = set text"
  by (simp add: sorted_chars_def)

text \<open>With distinct keys the order of the stores does not matter.\<close>

lemma fold_update_distinct:
  "distinct (map fst kvs) \<Longrightarrow>
   fold (\<lambda>kv m. m(fst kv \<mapsto> snd kv)) kvs m = m ++ map_of kvs"
proof (induction kvs arbitrary: m)
  case Nil
  then show ?case by simp
next
  case (Cons kv kvs)
  obtain k v where kv: "kv = (k, v)" by (cases kv)
  from Cons.prems kv have fresh: "map_of kvs k = None"
    by (simp add: map_of_eq_None_iff)
  have "fold (\<lambda>kv m. m(fst kv \<mapsto> snd kv)) (kv # kvs) m
        = fold (\<lambda>kv m. m(fst kv \<mapsto> snd kv)) kvs (m(k \<mapsto> v))"
    by (simp add: kv)
  also have "\<dots> = m(k \<mapsto> v) ++ map_of kvs"
    using Cons.prems by (intro Cons.IH) simp
  also have "\<dots> = m ++ map_of (kv # kvs)"
    unfolding kv using fresh
    by (intro ext) (simp add: map_add_def split: option.splits)
  finally show ?case .
qed

lemma dict_of_distinct: "distinct (map fst kvs) \<Longrightarrow> dict_of kvs = map_of kvs"
  unfolding dict_of_def case_prod_unfold
  using fold_update_distinct[of kvs Map.empty] by simp

lemma build_indices_char_eq:
  "build_indices_char chars = map_of (zip [0..<length chars] chars)"
proof -
  have "map (\<lambda>(i, c). (i, c)) (enumerate 0 chars) = zip [0..<length chars] chars"
    by (simp add: enumerate_eq_zip)
  moreover have "distinct (map fst (zip [0..<length chars] chars))"
    by simp
  ultimately show ?thesis
    by (simp add: build_indices_char_def dict_of_distinct)
qed

lemma build_char_indices_eq:
  assumes "distinct chars"
  shows "build_char_indices chars = map_of (zip chars [0..<length chars])"
proof -
  have "map (\<lambda>(i, c). (c, i)) (enumerate 0 chars) = zip chars [0..<length chars]"
    by (simp add: enumerate_eq_zip zip_commute[of chars])
  moreover have "distinct (map fst (zip chars [0..<length chars]))"
    using assms by simp
  ultimately show ?thesis
    by (simp add: build_char_indices_def dict_of_distinct)
qed

lemma indices_char_SomeD:
  assumes "build_indices_char chars i = Some c"
  shows "i < length chars \<and> chars ! i = c"
proof -
  have "map_of (zip [0..<length chars] chars) i = Some c"
    using assms by (simp only: build_indices_char_eq)
  then have "(i, c) \<in> set (zip [0..<length chars] chars)"
    by (rule map_of_SomeD)
  then obtain j where "j < length chars" "[0..<length chars] ! j = i" "chars ! j = c"
    unfolding in_set_zip by force
  then show ?thesis
    by simp
qed

lemma indices_char_nth:
  assumes "i < length chars"
  shows "build_indices_char chars i = Some (chars ! i)"
proof -
  have "map_of (zip [0..<length chars] chars) ([0..<length chars] ! i) = Some (chars ! i)"
    by (rule map_of_zip_nth) (use assms in simp_all)
  then show ?thesis
    using assms by (simp add: build_indices_char_eq)
qed

lemma char_indices_SomeD:
  assumes "distinct chars" "build_char_indices chars c = Some i"
  shows "i < length chars \<and> chars ! i = c"
proof -
  have "map_of (zip chars [0..<length chars]) c = Some i"
    using assms(2) by (simp only: build_char_indices_eq[OF assms(1)])
  then have "(c, i) \<in> set (zip chars [0..<length chars])"
    by (rule map_of_SomeD)
  then obtain j where "j < length chars" "[0..<length chars] ! j = i" "chars ! j = c"
    unfolding in_set_zip by force
  then show ?thesis
    by simp
qed

lemma char_indices_nth:
  assumes "distinct chars" "i < length chars"
  shows "build_char_indices chars (chars ! i) = Some i"
proof -
  have "map_of (zip chars [0..<length chars]) (chars ! i) = Some ([0..<length chars] ! i)"
    by (rule map_of_zip_nth) (use assms in simp_all)
  then show ?thesis
    using assms by (simp add: build_char_indices_eq)
qed

text \<open>Every symbol of the corpus has an index below the vocabulary size.\<close>

lemma char_indices_of_corpus:
  assumes "s \<in> set text"
  shows "\<exists>i. char_indices (notebook_env text W) s = Some i \<and> i < voc_size (notebook_env text W)"
proof -
  from assms have "s \<in> set (sorted_chars text)"
    by (simp add: set_sorted_chars)
  then obtain i where i: "i < length (sorted_chars text)" "sorted_chars text ! i = s"
    by (auto simp: in_set_conv_nth)
  then have "build_char_indices (sorted_chars text) s = Some i"
    using char_indices_nth[OF distinct_sorted_chars, of i "text"] by simp
  with i show ?thesis
    by (simp add: notebook_env_def Let_def)
qed

text \<open>
  Claim C6. For a vocabulary built from a corpus, a symbol that has an index is mapped
  back to itself: if \<^verbatim>\<open>char_indices[s]\<close> is \<open>i\<close> then \<^verbatim>\<open>indices_char[i]\<close>
  is \<open>s\<close>.
\<close>

theorem vocabulary_round_trip:
  assumes "char_indices (notebook_env text W) s = Some i"
  shows "indices_char (notebook_env text W) i = Some s"
proof -
  let ?chars = "sorted_chars text"
  from assms have "build_char_indices ?chars s = Some i"
    by (simp add: notebook_env_def Let_def)
  then have "i < length ?chars \<and> ?chars ! i = s"
    by (rule char_indices_SomeD[OF distinct_sorted_chars])
  then have "build_indices_char ?chars i = Some s"
    using indices_char_nth[of i ?chars] by simp
  then show ?thesis
    by (simp add: notebook_env_def Let_def)
qed

theorem vocabulary_round_trip_witness:
  "char_indices (notebook_env ''abc'' 2) CHR ''b'' = Some 1
   \<and> indices_char (notebook_env ''abc'' 2) 1 = Some CHR ''b''"
proof -
  have h: "char_indices (notebook_env ''abc'' 2) CHR ''b'' = Some 1"
    by code_simp
  show ?thesis
    using h vocabulary_round_trip[OF h] by simp
qed



section \<open>Vectorizing the context window\<close>

lemma np_index_nonneg: "i < n \<Longrightarrow> np_index n (int i) = Inr i"
  by (simp add: np_index_def)

lemma np_index_ok_iff: "(\<exists>j. np_index n i = Inr j) \<longleftrightarrow> - int n \<le> i \<and> i < int n"
  by (auto simp: np_index_def)

lemma np_index_range: "np_index n i = Inr j \<Longrightarrow> j < n"
  by (auto simp: np_index_def split: if_splits)

lemma np_index_error: "np_index n i = Inl e \<Longrightarrow> e = IndexError"
  by (auto simp: np_index_def split: if_splits)

lemma set_item_shape:
  assumes "well_shaped env x" "- int (max_length env) \<le> r" "r < int (max_length env)"
    "c < voc_size env"
  shows "\<exists>x'. set_item x r (int c) = Inr x' \<and> well_shaped env x'"
proof -
  from assms obtain r' where r': "np_index (length x) r = Inr r'"
    using np_index_ok_iff[of "length x" r] by (auto simp: well_shaped_def)
  then have "r' < length x" by (rule np_index_range)
  with assms have len: "length (x ! r') = voc_size env"
    by (simp add: well_shaped_def)
  have shape: "well_shaped env (x[r' := (x ! r')[c := 1] ])"
    using assms(1) len unfolding well_shaped_def
    by (auto dest!: subsetD[OF set_update_subset_insert])
  show ?thesis
    using r' len assms(4) shape by (simp add: set_item_def np_index_nonneg)
qed

lemma set_item_row_error:
  assumes "r < - int (length x) \<or> int (length x) \<le> r"
  shows "set_item x r c = Inl IndexError"
  using assms by (auto simp: set_item_def np_index_def)

lemma vectorize_loop_ok:
  assumes "well_shaped env x"
    "\<forall>ch\<in>set rest. \<exists>i. char_indices env ch = Some i \<and> i < voc_size env"
    "- int (max_length env) \<le> int t + shift"
    "int t + shift + int (length rest) \<le> int (max_length env)"
  shows "\<exists>x'. vectorize_loop env shift t rest x = Inr x' \<and> well_shaped env x'"
  using assms
proof (induction rest arbitrary: t x)
  case Nil
  then show ?case by simp
next
  case (Cons ch rest)
  from Cons.prems(2) obtain c where c: "char_indices env ch = Some c" "c < voc_size env"
    by auto
  from Cons.prems have "int t + shift < int (max_length env)" by simp
  with Cons.prems(1,3) c(2) obtain x' where
    x': "set_item x (int t + shift) (int c) = Inr x'" "well_shaped env x'"
    using set_item_shape by blast
  have "\<exists>x''. vectorize_loop env shift (Suc t) rest x' = Inr x'' \<and> well_shaped env x''"
    using Cons.prems x'(2) by (intro Cons.IH) auto
  with c x' show ?case by simp
qed

lemma set_item_append:
  assumes "c < length row"
  shows "set_item (A @ row # B) (int (length A)) (int c) = Inr (A @ row[c := 1] # B)"
  using assms by (simp add: set_item_def np_index_nonneg nth_append)

lemma vectorize_loop_padded:
  assumes "\<forall>ch\<in>set rest. \<exists>i. char_indices env ch = Some i \<and> i < V"
    "int t + shift = int (length A)"
  shows "vectorize_loop env shift t rest (A @ replicate (length rest) (replicate V 0))
         = Inr (A @ map (\<lambda>ch. (replicate V 0)[the (char_indices env ch) := 1]) rest)"
  using assms
proof (induction rest arbitrary: t A)
  case Nil
  then show ?case by simp
next
  case (Cons ch rest)
  let ?zeros = "replicate V (0::real)"
  from Cons.prems(1) obtain c where c: "char_indices env ch = Some c" "c < V"
    by auto
  have step: "set_item (A @ ?zeros # replicate (length rest) ?zeros) (int t + shift) (int c)
              = Inr (A @ ?zeros[c := 1] # replicate (length rest) ?zeros)"
    unfolding Cons.prems(2) using c(2) by (intro set_item_append) simp
  have "vectorize_loop env shift (Suc t) rest ((A @ [?zeros[c := 1] ]) @ replicate (length rest) ?zeros)
        = Inr ((A @ [?zeros[c := 1] ]) @ map (\<lambda>ch. ?zeros[the (char_indices env ch) := 1]) rest)"
    using Cons.prems by (intro Cons.IH) auto
  with c step show ?case by simp
qed

lemma count_list_replicate_other: "a \<noteq> b \<Longrightarrow> count_list (replicate n a) b = 0"
  by (induction n) auto

lemma count_list_onehot:
  "i < n \<Longrightarrow> count_list ((replicate n (0::real))[i := 1]) 1 = 1"
proof (induction n arbitrary: i)
  case 0
  then show ?case by simp
next
  case (Suc n)
  then show ?case
    by (cases i) (auto simp: count_list_replicate_other)
qed


text \<open>
  Claim C4. A window of length \<open>k \<le> W\<close> over symbols of the vocabulary is vectorized
  without error into \<open>W - k\<close> all-zero rows followed by the \<open>k\<close> one-hot rows of its
  symbols: the result has shape \<open>(W, V)\<close>, row \<open>t + (W - k)\<close> is the one-hot row of
  window symbol \<open>t\<close> and holds a single 1, the first \<open>W - k\<close> rows are zero, exactly
  \<open>k\<close> rows hold a single 1 and exactly \<open>W - k\<close> rows are zero.
\<close>

theorem vectorize_right_aligned:
  assumes "length prefix \<le> max_length env"
    and "\<forall>ch\<in>set prefix. \<exists>i. char_indices env ch = Some i \<and> i < voc_size env"
  defines "W \<equiv> max_length env" and "V \<equiv> voc_size env" and "k \<equiv> length prefix"
  defines "onehot \<equiv> \<lambda>ch. (replicate V (0::real))[the (char_indices env ch) := 1]"
  shows "\<exists>x. vectorize env prefix = Inr x
           \<and> x = replicate (W - k) (replicate V 0) @ map onehot prefix
           \<and> length x = W \<and> (\<forall>row\<in>set x. length row = V)
           \<and> (\<forall>t<k. x ! (t + (W - k)) = onehot (prefix ! t) \<and> count_list (x ! (t + (W - k))) 1 = 1)
           \<and> (\<forall>r<W - k. x ! r = replicate V 0)
           \<and> length (filter (\<lambda>row. count_list row 1 = 1) x) = k
           \<and> length (filter (\<lambda>row. row = replicate V 0) x) = W - k"
proof -
  let ?pad = "replicate (W - k) (replicate V (0::real))"
  let ?x = "?pad @ map onehot prefix"
  have x0: "replicate W (replicate V (0::real)) = ?pad @ replicate (length prefix) (replicate V 0)"
    using assms(1) by (simp add: W_def k_def flip: replicate_add)
  have "vectorize_loop env (int W - int k) 0 prefix (?pad @ replicate (length prefix) (replicate V 0))
        = Inr (?pad @ map (\<lambda>ch. (replicate V 0)[the (char_indices env ch) := 1]) prefix)"
    using assms(1,2) by (intro vectorize_loop_padded) (auto simp: W_def V_def k_def)
  then have run: "vectorize env prefix = Inr ?x"
    by (simp add: vectorize_def Let_def x0 onehot_def flip: W_def V_def k_def)
  have in_voc: "the (char_indices env ch) < V" if "ch \<in> set prefix" for ch
    using assms(2) that by (auto simp: V_def)
  have one: "count_list (onehot ch) 1 = 1" if "ch \<in> set prefix" for ch
    using in_voc[OF that] by (simp add: onehot_def count_list_onehot)
  have nz: "onehot ch \<noteq> replicate V 0" if "ch \<in> set prefix" for ch
  proof
    assume "onehot ch = replicate V 0"
    then have "count_list (onehot ch) 1 = count_list (replicate V (0::real)) 1" by simp
    with one[OF that] show False by (simp add: count_list_replicate_other)
  qed
  have len: "length ?x = W"
    using assms(1) by (simp add: W_def k_def)
  have rows: "\<forall>row\<in>set ?x. length row = V"
    by (auto simp: onehot_def)
  have hot: "\<forall>t<k. ?x ! (t + (W - k)) = onehot (prefix ! t) \<and> count_list (?x ! (t + (W - k))) 1 = 1"
    using one by (auto simp: nth_append k_def)
  have zero: "\<forall>r<W - k. ?x ! r = replicate V 0"
    by (simp add: nth_append)
  have f1: "filter (\<lambda>row. count_list row 1 = 1) ?x = map onehot prefix"
    using one by (simp add: count_list_replicate_other filter_map filter_id_conv comp_def)
  have c1: "length (filter (\<lambda>row. count_list row 1 = 1) ?x) = k"
    unfolding f1 by (simp add: k_def)
  have f0: "filter (\<lambda>row. row = replicate V 0) ?x = ?pad"
    using nz by (simp add: filter_map comp_def filter_empty_conv)
  have c0: "length (filter (\<lambda>row. row = replicate V 0) ?x) = W - k"
    unfolding f0 by simp
  from run len rows hot zero c1 c0 show ?thesis
    by blast
qed


theorem vectorize_right_aligned_witness:
  "length ''ab'' \<le> max_length (notebook_env ''abc'' 3)
   \<and> list_all (\<lambda>ch. \<exists>i. char_indices (notebook_env ''abc'' 3) ch = Some i
                          \<and> i < voc_size (notebook_env ''abc'' 3)) ''ab''
   \<and> vectorize (notebook_env ''abc'' 3) ''ab'' = Inr [ [0, 0, 0], [1, 0, 0], [0, 1, 0] ]
   \<and> (\<exists>x. vectorize (notebook_env ''abc'' 3) ''ab'' = Inr x \<and> length x = 3
          \<and> length (filter (\<lambda>row. count_list row 1 = 1) x) = 2
          \<and> length (filter (\<lambda>row. row = replicate 3 0) x) = 1)"
proof -
  have W: "max_length (notebook_env ''abc'' 3) = 3" and V: "voc_size (notebook_env ''abc'' 3) = 3"
    by code_simp+
  have h1: "length ''ab'' \<le> max_length (notebook_env ''abc'' 3)"
    by (simp add: W)
  have h2: "\<forall>ch\<in>set ''ab''. \<exists>i. char_indices (notebook_env ''abc'' 3) ch = Some i
                              \<and> i < voc_size (notebook_env ''abc'' 3)"
    by (auto intro!: char_indices_of_corpus)
  have run: "vectorize (notebook_env ''abc'' 3) ''ab'' = Inr [ [0, 0, 0], [1, 0, 0], [0, 1, 0] ]"
    by code_simp
  from vectorize_right_aligned[OF h1 h2]
  have "\<exists>x. vectorize (notebook_env ''abc'' 3) ''ab'' = Inr x \<and> length x = 3
          \<and> length (filter (\<lambda>row. count_list row 1 = 1) x) = 2
          \<and> length (filter (\<lambda>row. row = replicate 3 0) x) = 1"
    unfolding W V by auto
  moreover from h2
  have "list_all (\<lambda>ch. \<exists>i. char_indices (notebook_env ''abc'' 3) ch = Some i
                          \<and> i < voc_size (notebook_env ''abc'' 3)) ''ab''"
    unfolding list_all_iff .
  ultimately show ?thesis using h1 run by blast
qed

text \<open>
  Claim C3 does not hold: the loop has no check of the window's length. A window of length
  5 with \<open>W = 3\<close> is vectorized without any error; the row index \<open>t + shift\<close> of its
  first two symbols is negative and numpy counts it from the end, so rows 1 and 2 are
  written twice.
\<close>

theorem vectorize_window_5_counterexample:
  "vectorize (notebook_env ''abc'' 3) ''abcba'' = Inr [ [0, 0, 1], [1, 1, 0], [1, 1, 0] ]"
  by code_simp

text \<open>
  Claim C3, amended. For a window over symbols of the vocabulary, vectorization fails
  exactly when the window is longer than \<open>2 * W\<close>, and then with numpy's
  \<^verbatim>\<open>IndexError\<close>, raised at the first symbol; for every shorter window it returns a
  tensor.
\<close>

theorem vectorize_fails_iff_longer_than_twice:
  assumes "\<forall>ch\<in>set prefix. \<exists>i. char_indices env ch = Some i \<and> i < voc_size env"
  shows "((\<exists>x. vectorize env prefix = Inr x) \<longleftrightarrow> length prefix \<le> 2 * max_length env)
       \<and> (vectorize env prefix = Inl IndexError \<longleftrightarrow> 2 * max_length env < length prefix)"
proof -
  let ?W = "max_length env"
  let ?x0 = "replicate ?W (replicate (voc_size env) (0::real))"
  let ?shift = "int ?W - int (length prefix)"
  have shape: "well_shaped env ?x0"
    by (simp add: well_shaped_def)
  have ok: "\<exists>x. vectorize env prefix = Inr x" if "length prefix \<le> 2 * ?W"
  proof -
    have "\<exists>x'. vectorize_loop env ?shift 0 prefix ?x0 = Inr x' \<and> well_shaped env x'"
      using shape assms that by (intro vectorize_loop_ok) auto
    then show ?thesis by (auto simp: vectorize_def Let_def)
  qed
  have bad: "vectorize env prefix = Inl IndexError" if "2 * ?W < length prefix"
  proof -
    from that obtain ch rest where p: "prefix = ch # rest" by (cases prefix) auto
    with assms obtain c where c: "char_indices env ch = Some c" by auto
    have "set_item ?x0 (int 0 + ?shift) (int c) = Inl IndexError"
      using that by (intro set_item_row_error) auto
    then have "vectorize_loop env ?shift 0 (ch # rest) ?x0 = Inl IndexError"
      using c by simp
    then show ?thesis
      unfolding vectorize_def Let_def p .
  qed
  have "(\<exists>x. vectorize env prefix = Inr x) \<longleftrightarrow> length prefix \<le> 2 * ?W"
    using ok bad by (cases "length prefix \<le> 2 * ?W") auto
  moreover have "vectorize env prefix = Inl IndexError \<longleftrightarrow> 2 * ?W < length prefix"
    using ok bad by (cases "length prefix \<le> 2 * ?W") auto
  ultimately show ?thesis ..
qed


theorem vectorize_fails_iff_longer_than_twice_witness:
  "list_all (\<lambda>ch. \<exists>i. char_indices (notebook_env ''abc'' 3) ch = Some i
                        \<and> i < voc_size (notebook_env ''abc'' 3)) ''abcabca''
   \<and> 2 * max_length (notebook_env ''abc'' 3) < length ''abcabca''
   \<and> vectorize (notebook_env ''abc'' 3) ''abcabca'' = Inl IndexError"
proof -
  have W: "max_length (notebook_env ''abc'' 3) = 3"
    by code_simp
  have h: "\<forall>ch\<in>set ''abcabca''. \<exists>i. char_indices (notebook_env ''abc'' 3) ch = Some i
                                   \<and> i < voc_size (notebook_env ''abc'' 3)"
    by (auto intro!: char_indices_of_corpus)
  have long: "2 * max_length (notebook_env ''abc'' 3) < length ''abcabca''"
    by (simp add: W)
  from vectorize_fails_iff_longer_than_twice[OF h] long
  have "vectorize (notebook_env ''abc'' 3) ''abcabca'' = Inl IndexError"
    by blast
  moreover from h
  have "list_all (\<lambda>ch. \<exists>i. char_indices (notebook_env ''abc'' 3) ch = Some i
                        \<and> i < voc_size (notebook_env ''abc'' 3)) ''abcabca''"
    unfolding list_all_iff .
  ultimately show ?thesis using long by blast
qed


section \<open>Sampling\<close>

lemma length_sample_one_pvals [simp]: "length (sample_one_pvals preds T) = length preds"
  by (simp add: sample_one_pvals_def Let_def)

lemma first_index_onehot:
  "k < n \<Longrightarrow> first_index (\<lambda>x. x = Suc 0) ((replicate n 0)[k := Suc 0]) = k"
proof (induction n arbitrary: k)
  case 0 then show ?case by simp
next
  case (Suc n)
  then show ?case by (cases k) auto
qed

lemma Max_onehot: 
  assumes "k < n" shows "Max (set ((replicate n 0)[k := Suc 0])) = Suc 0"
proof -
  have "set ((replicate n (0::nat))[k := Suc 0]) \<subseteq> {0, Suc 0}"
    using set_update_subset_insert[of "replicate n (0::nat)" k "Suc 0"] by auto
  moreover have "Suc 0 \<in> set ((replicate n (0::nat))[k := Suc 0])"
    using assms by (simp add: set_update_memI)
  ultimately show ?thesis
    by (intro Max_eqI) auto
qed

lemma np_argmax_onehot: "k < n \<Longrightarrow> np_argmax ((replicate n 0)[k := Suc 0]) = Inr k"
  using first_index_onehot[of k n] Max_onehot[of k n]
  by (auto simp: np_argmax_def)

lemma first_index_less: "\<exists>x\<in>set xs. P x \<Longrightarrow> first_index P xs < length xs"
  by (induction xs) auto

lemma np_argmax_range: 
  assumes "np_argmax xs = Inr k" shows "k < length xs"
proof -
  from assms have ne: "xs \<noteq> []" and k: "k = first_index (\<lambda>x. x = Max (set xs)) xs"
    by (auto simp: np_argmax_def split: if_splits)
  from ne have "Max (set xs) \<in> set xs" by (intro Max_in) auto
  then show ?thesis unfolding k by (intro first_index_less) auto
qed

lemma np_argmax_nonempty: "xs \<noteq> [] \<Longrightarrow> \<exists>k. np_argmax xs = Inr k"
  by (simp add: np_argmax_def)

lemma sample_one_fixed_draw:
  "k < length preds \<Longrightarrow> sample_one (fixed_draw k) rng preds T = Inr (k, rng)"
  by (simp add: sample_one_def fixed_draw_def np_argmax_onehot)

subsection \<open>The range of float64\<close>

lemma underflow_threshold_pos: "0 < underflow_threshold"
  by (simp add: underflow_threshold_def)

lemma underflow_threshold_small: "underflow_threshold < 1 / 16"
proof -
  have "(2::real) ^ 4 < 2 ^ 1075"
    by (rule power_strict_increasing) simp_all
  then have "1 / (2::real) ^ 1075 < 1 / 2 ^ 4"
    by (intro divide_strict_left_mono) simp_all
  then show ?thesis by (simp add: underflow_threshold_def)
qed

lemma overflow_threshold_big: "65536 < overflow_threshold"
proof -
  have "(2::real) ^ 1024 = 2 ^ 54 * 2 ^ 970"
    by (simp flip: power_add)
  then have "overflow_threshold = (2 ^ 54 - 1) * 2 ^ 970"
    by (simp add: overflow_threshold_def algebra_simps)
  moreover have "(1::real) \<le> 2 ^ 970"
    by (rule one_le_power) simp
  moreover have "(65536::real) < 2 ^ 54 - 1"
    by simp
  ultimately show ?thesis
    using mult_left_mono[of 1 "2 ^ 970 :: real" "2 ^ 54 - 1"] by simp
qed

lemma float64_range_in_range: "in_range r \<Longrightarrow> float64_range r = Finite r"
  using underflow_threshold_pos overflow_threshold_big
  by (auto simp: in_range_def float64_range_def)

lemma float64_range_zero [simp]: "float64_range 0 = Finite 0"
  by (simp add: float64_range_in_range in_range_def)

lemma in_range_moderate: "1 / 16 \<le> \<bar>r\<bar> \<Longrightarrow> \<bar>r\<bar> \<le> 65536 \<Longrightarrow> in_range r"
  using underflow_threshold_small overflow_threshold_big
  by (simp add: in_range_def)

lemma ln_2_bounds: "1 / 2 \<le> ln (2::real)" "ln (2::real) \<le> 1"
proof -
  have "exp (1 / 2 :: real) \<le> 2"
    using exp_bound_half[of "1 / 2 :: real"] by simp
  moreover have "(1 / 2 \<le> ln (2::real)) = (exp (1 / 2) \<le> (2::real))"
    by (rule ln_ge_iff) simp
  ultimately show "1 / 2 \<le> ln (2::real)"
    by (simp only:)
  show "ln (2::real) \<le> 1"
    using ln_le_minus_one[of "2::real"] by simp
qed

lemma in_range_ln_2: "in_range (ln 2)" "in_range (- ln 2)"
  using ln_2_bounds by (intro in_range_moderate; linarith)+

lemma exp_neg_mult_ln_2: "exp (- (real n * ln 2)) = 1 / 2 ^ n"
  by (simp add: exp_minus exp_of_nat_mult inverse_eq_divide)

text \<open>sums of non-negative values within the range\<close>

lemma fold_np_add_in_range:
  assumes "\<forall>e\<in>set es. 0 \<le> e \<and> in_range e" "0 \<le> a" "in_range a"
    "a + sum_list es < overflow_threshold"
  shows "fold (\<lambda>x acc. np_add acc x) (map Finite es) (Finite a) = Finite (a + sum_list es)"
  using assms
proof (induction es arbitrary: a)
  case Nil
  then show ?case by simp
next
  case (Cons e es)
  have nonneg: "0 \<le> e" "0 \<le> sum_list es"
    using Cons.prems(1) by (auto intro: sum_list_nonneg)
  have "in_range (a + e)"
  proof (cases "a + e = 0")
    case True
    then show ?thesis by (simp add: in_range_def)
  next
    case False
    have "underflow_threshold < a + e"
      using False Cons.prems(1,2,3) nonneg(1)
      by (cases "a = 0"; cases "e = 0") (auto simp: in_range_def)
    moreover have "a + e < overflow_threshold"
      using Cons.prems(4) nonneg(2) by simp
    ultimately show ?thesis
      using Cons.prems(2) nonneg(1) by (simp add: in_range_def)
  qed
  then have step: "np_add (Finite a) (Finite e) = Finite (a + e)"
    by (simp add: float64_range_in_range)
  have "fold (\<lambda>x acc. np_add acc x) (map Finite es) (Finite (a + e))
        = Finite (a + e + sum_list es)"
    using Cons.prems nonneg \<open>in_range (a + e)\<close>
    by (intro Cons.IH) (auto simp: add.assoc)
  with step show ?case by (simp add: add.assoc)
qed

lemma np_sum_in_range:
  assumes "\<forall>e\<in>set es. 0 \<le> e \<and> in_range e" "sum_list es < overflow_threshold"
  shows "np_sum (map Finite es) = Finite (sum_list es)"
  using fold_np_add_in_range[OF assms(1), of 0] assms(2)
  by (simp add: np_sum_def in_range_def)

subsection \<open>The weights\<close>

lemma within_float64D:
  assumes "within_float64 preds T" "p \<in> set preds" "0 < p"
  shows "in_range (ln p / T)" "in_range (p powr (1 / T))"
    "in_range (p powr (1 / T) / (\<Sum>q\<leftarrow>preds. q powr (1 / T)))"
  using assms by (auto simp: within_float64_def list_all_iff)

text \<open>One entry: logarithm, division by the temperature, exponential.\<close>

lemma np_exp_log_div:
  assumes "0 < p" "T \<noteq> 0" "in_range (ln p / T)" "in_range (p powr (1 / T))"
  shows "np_exp (np_divide (np_log p) (Finite T)) = Finite (p powr (1 / T))"
proof -
  have "p powr (1 / T) = exp (ln p / T)"
    using assms(1) by (simp add: powr_def mult.commute)
  with assms show ?thesis
    by (simp add: np_log_def float64_range_in_range)
qed

lemma np_exp_log_div_zero:
  assumes "0 < T"
  shows "np_exp (np_divide (np_log 0) (Finite T)) = Finite (0 powr (1 / T))"
  using assms by (simp add: np_log_def)

lemma sample_one_pvals_unfold:
  "sample_one_pvals preds T
   = (let E = map (\<lambda>p. np_exp (np_divide (np_log p) (Finite T))) preds
      in map (\<lambda>e. np_divide e (np_sum E)) E)"
  by (simp add: sample_one_pvals_def Let_def comp_def)

lemma sample_one_pvals_in_range:
  assumes "T \<noteq> 0" "\<forall>p\<in>set preds. 0 \<le> p" "\<exists>p\<in>set preds. 0 < p"
    "T < 0 \<longrightarrow> (\<forall>p\<in>set preds. 0 < p)" "within_float64 preds T"
  shows "sample_one_pvals preds T
         = map (\<lambda>p. Finite (p powr (1 / T) / (\<Sum>q\<leftarrow>preds. q powr (1 / T)))) preds"
proof -
  let ?e = "\<lambda>p. p powr (1 / T)"
  let ?S = "sum_list (map ?e preds)"
  have entry: "np_exp (np_divide (np_log p) (Finite T)) = Finite (?e p)" if "p \<in> set preds" for p
  proof (cases "p = 0")
    case True
    with assms(1,4) that have "0 < T" by force
    with True show ?thesis by (simp add: np_exp_log_div_zero)
  next
    case False
    with assms(2) that have "0 < p" by force
    then show ?thesis
      using assms(1) within_float64D[OF assms(5) that] by (intro np_exp_log_div)
  qed
  then have exps: "map (\<lambda>p. np_exp (np_divide (np_log p) (Finite T))) preds
                   = map Finite (map ?e preds)"
    by simp
  have range_e: "\<forall>e\<in>set (map ?e preds). 0 \<le> e \<and> in_range e"
  proof
    fix e assume "e \<in> set (map ?e preds)"
    then obtain p where p: "p \<in> set preds" "e = ?e p" by auto
    show "0 \<le> e \<and> in_range e"
    proof (cases "p = 0")
      case True
      with p show ?thesis by (simp add: in_range_def)
    next
      case False
      with assms(2) p have "0 < p" by force
      with p within_float64D(2)[OF assms(5) p(1)] show ?thesis by simp
    qed
  qed
  have S_lt: "?S < overflow_threshold"
    using assms(5) by (simp add: within_float64_def)
  from assms(3) obtain p0 where p0: "p0 \<in> set preds" "0 < p0" by auto
  then have "0 < ?e p0" by simp
  moreover have "?e p0 \<le> ?S"
    using p0(1) by (intro member_le_sum_list) auto
  ultimately have S_pos: "0 < ?S" by linarith
  have sum: "np_sum (map Finite (map ?e preds)) = Finite ?S"
    using range_e S_lt by (rule np_sum_in_range)
  have weight: "np_divide (Finite (?e p)) (Finite ?S) = Finite (?e p / ?S)" if "p \<in> set preds" for p
  proof (cases "p = 0")
    case True
    with S_pos show ?thesis by simp
  next
    case False
    with assms(2) that have "0 < p" by force
    from within_float64D(3)[OF assms(5) that this] S_pos show ?thesis
      by (simp add: float64_range_in_range)
  qed
  have "sample_one_pvals preds T
        = map (\<lambda>e. np_divide e (Finite ?S)) (map Finite (map ?e preds))"
    unfolding sample_one_pvals_unfold Let_def exps sum ..
  also have "\<dots> = map (\<lambda>p. Finite (?e p / ?S)) preds"
    using weight by (simp add: comp_def)
  finally show ?thesis .
qed

text \<open>The weights of the lemma pass the check of numpy's multinomial.\<close>

lemma sum_list_butlast_le:
  assumes "\<forall>x\<in>set xs. 0 \<le> (x::real)"
  shows "sum_list (butlast xs) \<le> sum_list xs"
proof (cases "xs = []")
  case True
  then show ?thesis by simp
next
  case False
  then have "xs = butlast xs @ [last xs]" by simp
  then have "sum_list xs = sum_list (butlast xs) + last xs"
    by (metis sum_list.append sum_list.Cons sum_list.Nil add.right_neutral)
  moreover have "0 \<le> last xs" using assms False by simp
  ultimately show ?thesis by simp
qed

lemma sum_list_divide_const: "(\<Sum>e\<leftarrow>es. e / c) = sum_list es / (c::real)"
  by (induction es) (simp_all add: add_divide_distrib)

lemma normalised_weights_valid:
  assumes "\<forall>e\<in>set es. 0 \<le> (e::real)" "0 < sum_list es"
  shows "np_multinomial draw rng (map (\<lambda>e. Finite (e / sum_list es)) es)
         = draw rng (map (\<lambda>e. Finite (e / sum_list es)) es)"
proof -
  let ?w = "map (\<lambda>e. e / sum_list es) es"
  have le: "e \<le> sum_list es" if "e \<in> set es" for e
    using that assms(1) by (intro member_le_sum_list) auto
  have valid: "list_all valid_pval (map (\<lambda>e. Finite (e / sum_list es)) es)"
    using assms le by (auto simp: list_all_iff valid_pval_def)
  have total: "sum_list ?w = 1"
    using assms(2) by (simp add: sum_list_divide_const)
  have "map finite_value (butlast (map (\<lambda>e. Finite (e / sum_list es)) es)) = butlast ?w"
    by (simp add: map_butlast[symmetric] comp_def finite_value_def)
  moreover have "sum_list (butlast ?w) \<le> sum_list ?w"
    using assms by (intro sum_list_butlast_le) auto
  ultimately have "sum_list (map finite_value (butlast (map (\<lambda>e. Finite (e / sum_list es)) es))) \<le> 1"
    using total by simp
  then have "\<not> 1 + 1 / 10 ^ 12 < sum_list (map finite_value (butlast (map (\<lambda>e. Finite (e / sum_list es)) es)))"
    by (smt (verit) divide_pos_pos zero_less_power zero_less_numeral)
  with valid show ?thesis by (simp add: np_multinomial_def)
qed

subsection \<open>Failure and success of the draw\<close>

text \<open>Weights with a nan are refused.\<close>

lemma np_multinomial_nan:
  "NaN \<in> set pvals \<Longrightarrow> np_multinomial draw rng pvals = Inl ValueError"
  by (auto simp: np_multinomial_def list_all_iff valid_pval_def)

lemma sample_one_nan:
  "NaN \<in> set (sample_one_pvals preds T)
   \<Longrightarrow> sample_one (np_multinomial draw) rng preds T = Inl ValueError"
  by (simp add: sample_one_def np_multinomial_nan)

lemma np_add_NaN_right [simp]: "np_add a NaN = NaN"
  by (cases a) simp_all

lemma np_divide_NaN_right [simp]: "np_divide a NaN = NaN"
  by (cases a) simp_all

lemma fold_np_add_NaN: "fold (\<lambda>x acc. np_add acc x) xs NaN = NaN"
  by (induction xs) simp_all

lemma fold_np_add_has_NaN:
  "NaN \<in> set xs \<Longrightarrow> fold (\<lambda>x acc. np_add acc x) xs a = NaN"
  by (induction xs arbitrary: a) (auto simp: fold_np_add_NaN)

lemma np_sum_has_NaN: "NaN \<in> set xs \<Longrightarrow> np_sum xs = NaN"
  by (simp add: np_sum_def fold_np_add_has_NaN)

lemma fold_np_add_zeros:
  "\<forall>x\<in>set xs. x = Finite 0 \<Longrightarrow> fold (\<lambda>x acc. np_add acc x) xs (Finite 0) = Finite 0"
  by (induction xs) simp_all

lemma fold_np_add_PInf:
  "set xs \<subseteq> {Finite 0, PInf} \<Longrightarrow> fold (\<lambda>x acc. np_add acc x) xs PInf = PInf"
  by (induction xs) auto

lemma fold_np_add_has_PInf:
  "set xs \<subseteq> {Finite 0, PInf} \<Longrightarrow> PInf \<in> set xs
   \<Longrightarrow> fold (\<lambda>x acc. np_add acc x) xs (Finite 0) = PInf"
  by (induction xs) (auto simp: fold_np_add_PInf)

text \<open>
  When every exponential is 0, \<^verbatim>\<open>inf\<close> or \<^verbatim>\<open>nan\<close>, the normalisation
  produces a \<^verbatim>\<open>nan\<close>: \<^verbatim>\<open>0/0\<close>, \<^verbatim>\<open>inf/inf\<close> or a division by \<^verbatim>\<open>nan\<close>.
\<close>

lemma degenerate_weights_nan:
  assumes "set E \<subseteq> {Finite 0, PInf, NaN}" "E \<noteq> []"
  shows "NaN \<in> set (map (\<lambda>e. np_divide e (np_sum E)) E)"
proof -
  consider (nan) "NaN \<in> set E" | (inf) "NaN \<notin> set E" "PInf \<in> set E"
    | (zero) "NaN \<notin> set E" "PInf \<notin> set E"
    by blast
  then show ?thesis
  proof cases
    case nan
    then have "np_sum E = NaN" by (rule np_sum_has_NaN)
    with assms(2) show ?thesis by (cases E) simp_all
  next
    case inf
    with assms(1) have "set E \<subseteq> {Finite 0, PInf}" by auto
    then have "np_sum E = PInf"
      using inf(2) by (simp add: np_sum_def fold_np_add_has_PInf)
    moreover have "np_divide PInf PInf = NaN" by simp
    ultimately show ?thesis using inf(2) by force
  next
    case zero
    with assms(1) have all0: "\<forall>x\<in>set E. x = Finite 0" by auto
    then have "np_sum E = Finite 0"
      by (simp add: np_sum_def fold_np_add_zeros)
    moreover have "np_divide (Finite 0) (Finite 0) = NaN" by simp
    moreover from assms(2) all0 have "Finite 0 \<in> set E" by (cases E) auto
    ultimately show ?thesis by force
  qed
qed

lemma exp_at_temperature_zero:
  "np_exp (np_divide (np_log p) (Finite 0)) \<in> {Finite 0, PInf, NaN}"
  by (simp add: np_log_def)

lemma exp_of_zero_entry:
  "np_exp (np_divide (np_log 0) (Finite T)) \<in> {Finite 0, PInf, NaN}"
  by (simp add: np_log_def)

lemma sample_one_pvals_negative_entry:
  assumes "p \<in> set preds" "p < 0"
  shows "NaN \<in> set (sample_one_pvals preds T)"
proof -
  let ?E = "map (\<lambda>p. np_exp (np_divide (np_log p) (Finite T))) preds"
  have "np_exp (np_divide (np_log p) (Finite T)) = NaN"
    using assms(2) by (simp add: np_log_def)
  with assms(1) have "NaN \<in> set ?E" by force
  then have "np_sum ?E = NaN" by (rule np_sum_has_NaN)
  then have "sample_one_pvals preds T = map (\<lambda>e. NaN) ?E"
    by (simp add: sample_one_pvals_unfold Let_def)
  with assms(1) show ?thesis by (cases preds) auto
qed

lemma sample_one_pvals_temperature_zero:
  assumes "preds \<noteq> []"
  shows "NaN \<in> set (sample_one_pvals preds 0)"
proof -
  let ?E = "map (\<lambda>p. np_exp (np_divide (np_log p) (Finite 0))) preds"
  have "set ?E \<subseteq> {Finite 0, PInf, NaN}"
    using exp_at_temperature_zero by auto
  moreover have "?E \<noteq> []" using assms by simp
  ultimately have "NaN \<in> set (map (\<lambda>e. np_divide e (np_sum ?E)) ?E)"
    by (rule degenerate_weights_nan)
  then show ?thesis by (simp only: sample_one_pvals_unfold Let_def)
qed

lemma sample_one_pvals_all_zero:
  assumes "preds \<noteq> []" "\<forall>p\<in>set preds. p = 0"
  shows "NaN \<in> set (sample_one_pvals preds T)"
proof -
  let ?E = "map (\<lambda>p. np_exp (np_divide (np_log p) (Finite T))) preds"
  have "set ?E \<subseteq> {Finite 0, PInf, NaN}"
    using exp_of_zero_entry[of T] assms(2) by auto
  moreover have "?E \<noteq> []" using assms by simp
  ultimately have "NaN \<in> set (map (\<lambda>e. np_divide e (np_sum ?E)) ?E)"
    by (rule degenerate_weights_nan)
  then show ?thesis by (simp only: sample_one_pvals_unfold Let_def)
qed

text \<open>Success when the weights are the normalised powers.\<close>

lemma sample_one_succeeds:
  assumes contract: "\<forall>r pvals. \<exists>probs r'. draw r pvals = Inr (probs, r') \<and> length probs = length pvals"
    and "T \<noteq> 0" "\<forall>p\<in>set preds. 0 \<le> p" "\<exists>p\<in>set preds. 0 < p"
    "T < 0 \<longrightarrow> (\<forall>p\<in>set preds. 0 < p)" "within_float64 preds T"
  shows "\<exists>k rng'. k < length preds \<and> sample_one (np_multinomial draw) rng preds T = Inr (k, rng')"
proof -
  let ?e = "\<lambda>p. p powr (1 / T)"
  let ?es = "map ?e preds"
  have w: "sample_one_pvals preds T = map (\<lambda>e. Finite (e / sum_list ?es)) ?es"
    using sample_one_pvals_in_range[OF assms(2-6)] by (simp add: comp_def)
  from assms(4) obtain p0 where p0: "p0 \<in> set preds" "0 < p0" by auto
  then have "0 < ?e p0" by simp
  moreover have "?e p0 \<le> sum_list ?es"
    using p0(1) by (intro member_le_sum_list) auto
  ultimately have S_pos: "0 < sum_list ?es" by linarith
  have pass: "np_multinomial draw rng (sample_one_pvals preds T)
              = draw rng (sample_one_pvals preds T)"
    unfolding w using S_pos by (intro normalised_weights_valid) auto
  from contract obtain probs rng' where
    d: "draw rng (sample_one_pvals preds T) = Inr (probs, rng')"
    and len: "length probs = length preds"
    by (metis length_sample_one_pvals)
  from p0(1) len have "probs \<noteq> []" by auto
  then obtain k where k: "np_argmax probs = Inr k"
    using np_argmax_nonempty by blast
  then have "k < length preds"
    using np_argmax_range len by fastforce
  moreover have "sample_one (np_multinomial draw) rng preds T = Inr (k, rng')"
    using pass d k by (simp add: sample_one_def)
  ultimately show ?thesis by blast
qed

lemma within_float64_halves: "within_float64 [1/2, 1/2] 1"
proof -
  have "in_range (ln (1/2 :: real))"
    using in_range_ln_2(2) by (simp add: ln_div)
  moreover have "in_range (1/2 :: real)"
    by (rule in_range_moderate) simp_all
  moreover have "(1::real) < overflow_threshold"
    using overflow_threshold_big by simp
  ultimately show ?thesis
    by (simp add: within_float64_def)
qed

lemma within_float64_half_zero_half: "within_float64 [1/2, 0, 1/2] 1"
proof -
  have "in_range (ln (1/2 :: real))"
    using in_range_ln_2(2) by (simp add: ln_div)
  moreover have "in_range (1/2 :: real)"
    by (rule in_range_moderate) simp_all
  moreover have "(1::real) < overflow_threshold"
    using overflow_threshold_big by simp
  ultimately show ?thesis
    by (simp add: within_float64_def)
qed

lemma within_float64_negative_temperature: "within_float64 [1/2, 1/2] (- 1)"
proof -
  have p: "(1/2 :: real) powr (- 1) = 2"
    by (simp add: powr_minus)
  have "in_range (ln (1/2 :: real) / (- 1))"
    using in_range_ln_2(1) by (simp add: ln_div)
  moreover have "in_range (2 :: real)" "in_range (1/2 :: real)"
    by (rule in_range_moderate; simp)+
  moreover have "(4::real) < overflow_threshold"
    using overflow_threshold_big by simp
  ultimately show ?thesis
    by (simp add: within_float64_def p)
qed

text \<open>At temperature 1/10000 both exponentials of [1/2, 1/2] underflow.\<close>

lemma exp_underflows:
  "np_exp (np_divide (np_log (1/2)) (Finite (1 / 10000))) = Finite 0"
proof -
  have q: "ln (1/2 :: real) / (1 / 10000) = - (real 10000 * ln 2)"
    by (simp add: ln_div)
  have "\<bar>- (real 10000 * ln 2)\<bar> = 10000 * ln 2"
    using ln_2_bounds(1) by simp
  then have "in_range (- (real 10000 * ln 2))"
    using ln_2_bounds by (intro in_range_moderate) simp_all
  then have r: "float64_range (- (real 10000 * ln 2)) = Finite (- (real 10000 * ln 2))"
    by (rule float64_range_in_range)
  have "np_divide (np_log (1/2)) (Finite (1 / 10000))
        = float64_range (ln (1/2 :: real) / (1 / 10000))"
    by (simp add: np_log_def)
  also have "\<dots> = Finite (- (real 10000 * ln 2))"
    by (simp only: q r)
  finally have d: "np_divide (np_log (1/2)) (Finite (1 / 10000)) = Finite (- (real 10000 * ln 2))" .
  define tiny :: real where "tiny = 1 / 2 ^ 10000"
  have tiny_pos: "0 < tiny"
    unfolding tiny_def by (intro divide_pos_pos zero_less_power) simp_all
  have le: "(2::real) ^ 1075 \<le> 2 ^ 10000"
    by (rule power_increasing) simp_all
  have pos: "0 < (2::real) ^ 10000 * 2 ^ 1075"
    by (intro mult_pos_pos zero_less_power) simp_all
  have "tiny \<le> underflow_threshold"
    unfolding tiny_def underflow_threshold_def
    by (rule divide_left_mono[OF le _ pos]) simp
  then have "float64_range tiny = Finite 0"
    using tiny_pos overflow_threshold_big underflow_threshold_small
    by (auto simp: float64_range_def)
  moreover have "exp (- (real 10000 * ln 2)) = tiny"
    unfolding tiny_def by (rule exp_neg_mult_ln_2)
  ultimately show ?thesis
    unfolding d np_exp.simps by (simp only:)
qed








text \<open>
  Claim C9. numpy's multinomial returns one count for each weight. Under that contract,
  whenever \<^verbatim>\<open>sample_one\<close> returns, the index is below the length of the probability
  vector; and when that length is the vocabulary size of a vocabulary built from a corpus,
  the lookup \<^verbatim>\<open>indices_char[next_index]\<close> finds a symbol.
\<close>

theorem sample_one_index_in_range:
  assumes "\<forall>r pvals probs r'. multinomial r pvals = Inr (probs, r') \<longrightarrow> length probs = length pvals"
    and "sample_one multinomial rng preds T = Inr (k, rng')"
  shows "k < length preds
       \<and> (length preds = voc_size (notebook_env text W)
            \<longrightarrow> (\<exists>c. indices_char (notebook_env text W) k = Some c))"
proof -
  from assms(2) obtain probs where
    draw: "multinomial rng (sample_one_pvals preds T) = Inr (probs, rng')"
    and k: "np_argmax probs = Inr k"
    by (auto simp: sample_one_def split: sum.splits prod.splits)
  from assms(1) draw have "length probs = length preds"
    by fastforce
  with k have range: "k < length preds"
    using np_argmax_range by fastforce
  have "\<exists>c. indices_char (notebook_env text W) k = Some c"
    if "length preds = voc_size (notebook_env text W)"
  proof -
    from that range have "k < length (sorted_chars text)"
      by (simp add: notebook_env_def Let_def)
    then show ?thesis
      by (simp add: notebook_env_def Let_def indices_char_nth)
  qed
  with range show ?thesis by blast
qed

theorem sample_one_index_in_range_witness:
  "sample_one (fixed_draw 1) () [1/5, 3/10, 1/2] 1 = Inr (1, ())
   \<and> length [1/5, 3/10, 1/2 :: real] = voc_size (notebook_env ''abc'' 2)
   \<and> (1::nat) < length [1/5, 3/10, 1/2 :: real]
   \<and> (\<exists>c. indices_char (notebook_env ''abc'' 2) 1 = Some c)"
proof -
  have h1: "\<forall>r pvals probs r'. (fixed_draw 1 :: unit multinomial) r pvals = Inr (probs, r')
        \<longrightarrow> length probs = length pvals"
    by (auto simp: fixed_draw_def)
  have h2: "sample_one (fixed_draw 1) () [1/5, 3/10, 1/2] 1 = Inr (1, ())"
    by (simp add: sample_one_fixed_draw)
  have V: "length [1/5, 3/10, 1/2 :: real] = voc_size (notebook_env ''abc'' 2)"
    by code_simp
  from sample_one_index_in_range[OF h1 h2, of "''abc''" 2] V
  have "(1::nat) < length [1/5, 3/10, 1/2 :: real]
        \<and> (\<exists>c. indices_char (notebook_env ''abc'' 2) 1 = Some c)"
    by blast
  with h2 V show ?thesis by blast
qed

section \<open>Generation\<close>

lemma generate_loop_length:
  assumes "generate_loop env model multinomial T n (generated, prefix, rng) = Inr (generated', prefix', rng')"
  shows "length generated' = length generated + n \<and> take (length generated) generated' = generated"
  using assms
proof (induction n arbitrary: generated prefix rng)
  case 0
  then show ?case by simp
next
  case (Suc n)
  from Suc.prems obtain x next_index rng1 next_char where
    rest: "generate_loop env model multinomial T n
             (generated @ [next_char], drop 1 prefix @ [next_char], rng1)
           = Inr (generated', prefix', rng')"
    by (auto split: sum.splits prod.splits option.splits)
  from Suc.IH[OF rest]
  have len: "length generated' = length (generated @ [next_char]) + n"
    and pre: "take (length (generated @ [next_char])) generated' = generated @ [next_char]"
    by auto
  have "take (length generated) generated'
        = take (length generated) (take (length (generated @ [next_char])) generated')"
    by (simp add: min_def)
  also have "\<dots> = generated"
    unfolding pre by simp
  finally show ?case using len by simp
qed

lemma generate_loop_prefix_length:
  assumes "generate_loop env model multinomial T n (generated, prefix, rng) = Inr (generated', prefix', rng')"
  shows "length prefix' = (if n = 0 \<or> prefix \<noteq> [] then length prefix else 1)"
  using assms
proof (induction n arbitrary: generated prefix rng)
  case 0
  then show ?case by simp
next
  case (Suc n)
  from Suc.prems obtain x next_index rng1 next_char where
    rest: "generate_loop env model multinomial T n
             (generated @ [next_char], drop 1 prefix @ [next_char], rng1)
           = Inr (generated', prefix', rng')"
    by (auto split: sum.splits prod.splits option.splits)
  from Suc.IH[OF rest] show ?case
    by (cases prefix) auto
qed

text \<open>
  Claim C7. When no step fails, \<^verbatim>\<open>generate_text\<close> returns a sequence of length
  \<open>len(seed) + length\<close> that starts with the seed string.
\<close>

theorem generate_text_length:
  assumes "generate_text env model multinomial rng seed_string n T = Inr (generated, rng')"
  shows "length generated = length seed_string + n
       \<and> take (length seed_string) generated = seed_string"
proof -
  from assms obtain prefix where
    "generate_loop env model multinomial T n (seed_string, seed_string, rng)
     = Inr (generated, prefix, rng')"
    by (auto simp: generate_text_def split: sum.splits prod.splits)
  then show ?thesis by (rule generate_loop_length)
qed

theorem generate_text_length_witness:
  "generate_text (notebook_env ''abc'' 2) (\<lambda>x. [1/2, 1/4, 1/4]) (fixed_draw 0) () ''ab'' 2 1
     = Inr (''abaa'', ())
   \<and> length ''abaa'' = length ''ab'' + 2 \<and> take (length ''ab'') ''abaa'' = ''ab''"
proof -
  have v0: "vectorize (notebook_env ''abc'' 2) ''ab'' = Inr [ [1, 0, 0], [0, 1, 0] ]"
    and v1: "vectorize (notebook_env ''abc'' 2) ''ba'' = Inr [ [0, 1, 0], [1, 0, 0] ]"
    and ic: "indices_char (notebook_env ''abc'' 2) 0 = Some CHR ''a''"
    by code_simp+
  have s: "sample_one (fixed_draw 0) () [1/2, 1/4, 1/4] 1 = Inr (0, ())"
    by (simp add: sample_one_fixed_draw)
  have run: "generate_text (notebook_env ''abc'' 2) (\<lambda>x. [1/2, 1/4, 1/4]) (fixed_draw 0) () ''ab'' 2 1
     = Inr (''abaa'', ())"
    using v0 v1 ic s by (simp add: generate_text_def numeral_2_eq_2)
  from generate_text_length[OF run] run show ?thesis by blast
qed

text \<open>
  Claim C8. With the vocabulary of \<^verbatim>\<open>'a'\<close>, \<^verbatim>\<open>'b'\<close>, \<^verbatim>\<open>'c'\<close> (indices 0, 1, 2),
  window size 2, the empty seed, a model that always returns \<^verbatim>\<open>[0.1, 0.1, 0.8]\<close>,
  temperature 1 and a random source whose every draw selects index 2, three steps of
  generation return \<^verbatim>\<open>"ccc"\<close>.
\<close>

theorem generate_text_ccc:
  "generate_text (notebook_env ''abc'' 2) (\<lambda>x. [1/10, 1/10, 8/10]) (fixed_draw 2) () [] 3 1
     = Inr (''ccc'', ())"
proof -
  have v0: "vectorize (notebook_env ''abc'' 2) [] = Inr [ [0, 0, 0], [0, 0, 0] ]"
    and v1: "vectorize (notebook_env ''abc'' 2) ''c'' = Inr [ [0, 0, 0], [0, 0, 1] ]"
    and ic: "indices_char (notebook_env ''abc'' 2) 2 = Some CHR ''c''"
    by code_simp+
  have s: "sample_one (fixed_draw 2) () [1/10, 1/10, 8/10] 1 = Inr (2, ())"
    by (simp add: sample_one_fixed_draw)
  show ?thesis
    using v0 v1 ic s by (simp add: generate_text_def numeral_3_eq_3)
qed

text \<open>
  Claim C5 fails on the code. \<^verbatim>\<open>prefix = prefix[1:] + next_char\<close> drops the oldest
  symbol at every step, also while the window is shorter than \<^verbatim>\<open>max_length\<close>, so the
  window never grows: in the scenario of claim C8 the sequence generated after two steps
  is \<^verbatim>\<open>"cc"\<close> and \<open>W = 2\<close>, but the window for the third step is \<^verbatim>\<open>"c"\<close>.
\<close>

theorem generate_loop_window_stays_short:
  "generate_loop (notebook_env ''abc'' 2) (\<lambda>x. [1/10, 1/10, 8/10]) (fixed_draw 2) 1 2
     ([], [], ()) = Inr (''cc'', ''c'', ())"
proof -
  have v0: "vectorize (notebook_env ''abc'' 2) [] = Inr [ [0, 0, 0], [0, 0, 0] ]"
    and v1: "vectorize (notebook_env ''abc'' 2) ''c'' = Inr [ [0, 0, 0], [0, 0, 1] ]"
    and ic: "indices_char (notebook_env ''abc'' 2) 2 = Some CHR ''c''"
    by code_simp+
  have s: "sample_one (fixed_draw 2) () [1/10, 1/10, 8/10] 1 = Inr (2, ())"
    by (simp add: sample_one_fixed_draw)
  show ?thesis
    using v0 v1 ic s by (simp add: numeral_2_eq_2)
qed

section \<open>Embedding lookup as a matrix product\<close>

lemma np_eye_row: "i < n \<Longrightarrow> np_eye n ! i = map (\<lambda>j. if i = j then 1 else 0) [0..<n]"
  by (simp add: np_eye_def)

lemma sum_list_onehot:
  assumes "l < n"
  shows "(\<Sum>i\<leftarrow>[0..<n]. (if l = i then 1 else 0) * f i) = (f l :: real)"
proof -
  have "(\<Sum>i\<leftarrow>[0..<n]. (if l = i then 1 else 0) * f i)
        = (\<Sum>i\<in>{0..<n}. (if l = i then 1 else 0) * f i)"
    by (simp add: interv_sum_list_conv_sum_set_nat)
  also have "\<dots> = (\<Sum>i\<in>{0..<n}. if i = l then f i else 0)"
    by (intro sum.cong) auto
  also have "\<dots> = f l"
    using assms by (simp add: sum.delta)
  finally show ?thesis .
qed

lemma ncols_nth:
  assumes "\<forall>row\<in>set M. length row = n" "l < length M"
  shows "ncols M = length (M ! l)"
proof -
  from assms(2) obtain r rs where M: "M = r # rs" by (cases M) auto
  with assms(1) have "ncols M = n" by (simp add: ncols_def)
  moreover from assms have "length (M ! l) = n" by simp
  ultimately show ?thesis by simp
qed

text \<open>
  Claim C10. For a label with \<open>0 \<le> label < dim\<close> and an embedding matrix with \<open>dim\<close>
  rows, all of the same length, the product of the one-hot vector of the label with the
  matrix is the row of the matrix at the label: \<^verbatim>\<open>np.dot(onehot_encode(dim, label), M)\<close>
  is \<^verbatim>\<open>M[label]\<close>, and the one-hot vector has 1 at the label and 0 elsewhere.
\<close>

theorem embedding_vector_is_row:
  assumes "0 \<le> label" and "label < int d" and "length M = d"
    and "\<forall>row\<in>set M. length row = n"
  shows "onehot_encode d label = Inr ((replicate d 0)[nat label := 1])
       \<and> embedding_vector d label M = get_row M label
       \<and> embedding_vector d label M = Inr (M ! nat label)"
proof -
  let ?l = "nat label"
  from assms(1,2) have l: "?l < d" by simp
  have idx: "np_index d label = Inr ?l"
    using assms(1,2) by (simp add: np_index_def)
  have onehot: "onehot_encode d label = Inr (map (\<lambda>j. if ?l = j then 1 else 0) [0..<d])"
    using l by (simp add: onehot_encode_def get_row_def idx np_eye_def)
  have as_update: "map (\<lambda>j. if ?l = j then 1 else 0) [0..<d] = (replicate d (0::real))[?l := 1]"
    using l by (intro nth_equalityI) (auto simp: nth_list_update)
  have row: "get_row M label = Inr (M ! ?l)"
    using assms(3) by (simp add: get_row_def idx)
  have cols: "ncols M = length (M ! ?l)"
    using assms(3,4) l by (intro ncols_nth[of M n]) auto
  have entry: "(\<Sum>i\<leftarrow>[0..<d]. map (\<lambda>j. if ?l = j then 1 else 0) [0..<d] ! i * M ! i ! j) = M ! ?l ! j"
    for j
  proof -
    have "(\<Sum>i\<leftarrow>[0..<d]. map (\<lambda>j. if ?l = j then 1 else 0) [0..<d] ! i * M ! i ! j)
          = (\<Sum>i\<leftarrow>[0..<d]. (if ?l = i then 1 else 0) * M ! i ! j)"
      by (intro arg_cong[of _ _ sum_list] map_cong) auto
    then show ?thesis using sum_list_onehot[OF l, of "\<lambda>i. M ! i ! j"] by simp
  qed
  have "np_dot (map (\<lambda>j. if ?l = j then 1 else 0) [0..<d]) M
        = Inr (map (\<lambda>j. M ! ?l ! j) [0..<length (M ! ?l)])"
    using assms(3) by (simp add: np_dot_def cols entry)
  also have "\<dots> = Inr (M ! ?l)"
    by (simp add: map_nth)
  finally have dot: "embedding_vector d label M = Inr (M ! ?l)"
    by (simp add: embedding_vector_def onehot)
  from onehot as_update row dot show ?thesis by simp
qed

theorem embedding_vector_is_row_witness:
  "(0::int) \<le> 1 \<and> (1::int) < int 3 \<and> length [ [1, 2], [3, 4], [5, 6 :: real] ] = 3
   \<and> list_all (\<lambda>row. length row = 2) [ [1, 2], [3, 4], [5, 6 :: real] ]
   \<and> onehot_encode 3 1 = Inr [0, 1, 0]
   \<and> embedding_vector 3 1 [ [1, 2], [3, 4], [5, 6] ] = Inr [3, 4]"
proof -
  have h1: "(0::int) \<le> 1" and h2: "(1::int) < int 3"
    and h3: "length [ [1, 2], [3, 4], [5, 6 :: real] ] = 3"
    and h4: "\<forall>row\<in>set [ [1, 2], [3, 4], [5, 6 :: real] ]. length row = 2"
    by simp_all
  note row = embedding_vector_is_row[OF h1 h2 h3 h4]
  have "(replicate 3 (0::real))[nat 1 := 1] = [0, 1, 0]"
    by (simp add: numeral_3_eq_3)
  with row have a: "onehot_encode 3 1 = Inr [0, 1, 0]"
    by simp
  from row have "embedding_vector 3 1 [ [1, 2], [3, 4], [5, 6] ]
                 = Inr ([ [1, 2], [3, 4], [5, 6] ] ! nat 1)"
    by blast
  then have b: "embedding_vector 3 1 [ [1, 2], [3, 4], [5, 6] ] = Inr [3, 4]"
    by simp
  have "list_all (\<lambda>row. length row = 2) [ [1, 2], [3, 4], [5, 6 :: real] ]"
    by simp
  with h1 h2 h3 a b show ?thesis by blast
qed


end
